theory Spec2Isabelle
  imports Main "HOL-Library.Word" "HOL-Library.Sublist"
begin

section \<open>Handlers\<close>

text \<open>
  A handler is a \<^verbatim>\<open>std::function<void(Args...)>\<close>: it returns nothing, acts on whatever
  it captured, and may throw. The memory a handler can touch is the type \<open>'w\<close>, the argument
  tuple is \<open>'a\<close>, an exception value is \<open>'x\<close>. A call either returns, or throws after
  having had some effect. Handlers are total functions here: a handler that never returns
  is outside the model, and so is a handler that calls back into the bus it is registered
  on (the source would take \<^verbatim>\<open>mutex_\<close> twice on one thread).

  The cast of \<^verbatim>\<open>void*\<close> back to the tuple type in \<^verbatim>\<open>concrete_handler::invoke\<close> is the
  identity when the types of subscribe and trigger agree, which the single type \<open>'a\<close>
  imposes.
\<close>

datatype ('x, 'w) outcome = Returned 'w | Threw 'x 'w

type_synonym ('a, 'w, 'x) handler = "'a \<Rightarrow> 'w \<Rightarrow> ('x, 'w) outcome"

definition invoke :: "('a, 'w, 'x) handler \<Rightarrow> 'a \<Rightarrow> 'w \<Rightarrow> ('x, 'w) outcome" where
  "invoke fn args w = fn args w"

primrec outcome_world :: "('x, 'w) outcome \<Rightarrow> 'w" where
  "outcome_world (Returned w) = w"
| "outcome_world (Threw x w) = w"

section \<open>The event bus\<close>

text \<open>
  \<^verbatim>\<open>int next_id_\<close> is a 32-bit signed integer, read with \<open>sint\<close>; \<^verbatim>\<open>next_id_++\<close> is
  addition on the word, so that the increment at \<^verbatim>\<open>INT_MAX\<close> (undefined in C++, a wrap
  on the usual targets) is written out as the wrap. \<^verbatim>\<open>subscribers_\<close> is an
  \<^verbatim>\<open>unordered_map\<close> from names to vectors of (id, handler); the source never iterates
  over the map itself, so a partial function is the whole of it.
\<close>

type_synonym sub_id = "32 word"

type_synonym ('a, 'w, 'x) entries = "(sub_id \<times> ('a, 'w, 'x) handler) list"

record ('a, 'w, 'x) event_bus =
  subscribers :: "string \<rightharpoonup> ('a, 'w, 'x) entries"
  next_id :: sub_id

definition new_bus :: "('a, 'w, 'x) event_bus" where
  "new_bus = \<lparr>subscribers = Map.empty, next_id = 0\<rparr>"

text \<open>\<^verbatim>\<open>unordered_map::count\<close>: 1 when the key is present, 0 otherwise.\<close>

definition map_count :: "('k \<rightharpoonup> 'v) \<Rightarrow> 'k \<Rightarrow> nat" where
  "map_count m k = (case m k of None \<Rightarrow> 0 | Some v \<Rightarrow> 1)"

text \<open>
  \<^verbatim>\<open>unordered_map::operator[]\<close>: a missing key is inserted with an empty vector first.
  The result is the vector found and the map after the access.
\<close>

definition subscript :: "('k \<rightharpoonup> 'v list) \<Rightarrow> 'k \<Rightarrow> 'v list \<times> ('k \<rightharpoonup> 'v list)" where
  "subscript m k = (case m k of None \<Rightarrow> ([], m(k \<mapsto> [])) | Some v \<Rightarrow> (v, m))"

definition subscribe ::
  "('a, 'w, 'x) event_bus \<Rightarrow> string \<Rightarrow> ('a, 'w, 'x) handler \<Rightarrow> sub_id \<times> ('a, 'w, 'x) event_bus" where
  "subscribe b event_name h =
     (let sid = next_id b;
          b1 = b\<lparr>next_id := next_id b + 1\<rparr>;
          (handlers, m) = subscript (subscribers b1) event_name
      in (sid, b1\<lparr>subscribers := m(event_name \<mapsto> handlers @ [(sid, h)])\<rparr>))"

text \<open>
  \<^verbatim>\<open>handlers.erase(remove_if(...), handlers.end())\<close> keeps, in order, the entries whose id
  differs from \<open>sid\<close>.
\<close>

definition unsubscribe ::
  "('a, 'w, 'x) event_bus \<Rightarrow> string \<Rightarrow> sub_id \<Rightarrow> ('a, 'w, 'x) event_bus" where
  "unsubscribe b event_name sid =
     (if map_count (subscribers b) event_name \<noteq> 0 then
        (let (handlers, m) = subscript (subscribers b) event_name;
             handlers' = filter (\<lambda>pair. \<not> (fst pair = sid)) handlers;
             m' = m(event_name \<mapsto> handlers')
         in if handlers' = [] then b\<lparr>subscribers := m'(event_name := None)\<rparr>
            else b\<lparr>subscribers := m'\<rparr>)
      else b)"

text \<open>
  The loop \<^verbatim>\<open>for (const auto& [id, handler] : ...) handler->invoke(args)\<close>: an exception
  leaves the loop at once, with the effects so far.
\<close>

fun invoke_all :: "('a, 'w, 'x) entries \<Rightarrow> 'a \<Rightarrow> 'w \<Rightarrow> ('x, 'w) outcome" where
  "invoke_all [] args w = Returned w"
| "invoke_all ((sid, h) # rest) args w =
     (case invoke h args w of
        Returned w' \<Rightarrow> invoke_all rest args w'
      | Threw x w' \<Rightarrow> Threw x w')"

text \<open>
  \<open>trigger\<close> and \<open>trigger_impl\<close> are not \<^verbatim>\<open>const\<close> and read the vector through
  \<^verbatim>\<open>operator[]\<close>, so they return the bus as they leave it, next to the outcome of the
  calls.
\<close>

definition trigger ::
  "('a, 'w, 'x) event_bus \<Rightarrow> string \<Rightarrow> 'a \<Rightarrow> 'w \<Rightarrow> ('a, 'w, 'x) event_bus \<times> ('x, 'w) outcome" where
  "trigger b event_name params w =
     (if map_count (subscribers b) event_name \<noteq> 0 then
        (let tuple_args = params;
             (handlers, m) = subscript (subscribers b) event_name
         in (b\<lparr>subscribers := m\<rparr>, invoke_all handlers tuple_args w))
      else (b, Returned w))"

definition trigger_impl ::
  "('a, 'w, 'x) event_bus \<Rightarrow> string \<Rightarrow> 'a \<Rightarrow> 'w \<Rightarrow> ('a, 'w, 'x) event_bus \<times> ('x, 'w) outcome" where
  "trigger_impl b event_name args w =
     (if map_count (subscribers b) event_name \<noteq> 0 then
        (let (handlers, m) = subscript (subscribers b) event_name
         in (b\<lparr>subscribers := m\<rparr>, invoke_all handlers args w))
      else (b, Returned w))"

definition clear :: "('a, 'w, 'x) event_bus \<Rightarrow> ('a, 'w, 'x) event_bus" where
  "clear b = b\<lparr>subscribers := Map.empty\<rparr>"

subsection \<open>Sequences of calls on one bus\<close>

text \<open>
  A client's calls on one bus, in order. The state is the bus and the memory the
  handlers act on. A caller that catches the exception of a trigger goes on with the
  memory as the throwing handler left it.
\<close>

datatype ('a, 'w, 'x) bus_op =
    Subscribe string "('a, 'w, 'x) handler"
  | Unsubscribe string sub_id
  | Trigger string 'a
  | Clear

fun apply_op ::
  "('a, 'w, 'x) bus_op \<Rightarrow> ('a, 'w, 'x) event_bus \<times> 'w \<Rightarrow> ('a, 'w, 'x) event_bus \<times> 'w" where
  "apply_op (Subscribe n h) (b, w) = (snd (subscribe b n h), w)"
| "apply_op (Unsubscribe n i) (b, w) = (unsubscribe b n i, w)"
| "apply_op (Trigger n a) (b, w) = (fst (trigger b n a w), outcome_world (snd (trigger b n a w)))"
| "apply_op Clear (b, w) = (clear b, w)"

fun run_ops ::
  "('a, 'w, 'x) bus_op list \<Rightarrow> ('a, 'w, 'x) event_bus \<times> 'w \<Rightarrow> ('a, 'w, 'x) event_bus \<times> 'w" where
  "run_ops [] s = s"
| "run_ops (op # ops) s = run_ops ops (apply_op op s)"

text \<open>The ids the subscribe calls of a sequence return, in call order.\<close>

fun returned_ids :: "('a, 'w, 'x) bus_op list \<Rightarrow> ('a, 'w, 'x) event_bus \<times> 'w \<Rightarrow> sub_id list" where
  "returned_ids [] s = []"
| "returned_ids (Subscribe n h # ops) s =
     fst (subscribe (fst s) n h) # returned_ids ops (apply_op (Subscribe n h) s)"
| "returned_ids (Unsubscribe n i # ops) s = returned_ids ops (apply_op (Unsubscribe n i) s)"
| "returned_ids (Trigger n a # ops) s = returned_ids ops (apply_op (Trigger n a) s)"
| "returned_ids (Clear # ops) s = returned_ids ops (apply_op Clear s)"

primrec is_subscribe :: "('a, 'w, 'x) bus_op \<Rightarrow> bool" where
  "is_subscribe (Subscribe n h) = True"
| "is_subscribe (Unsubscribe n i) = False"
| "is_subscribe (Trigger n a) = False"
| "is_subscribe Clear = False"

definition subscribe_calls :: "('a, 'w, 'x) bus_op list \<Rightarrow> nat" where
  "subscribe_calls ops = length (filter is_subscribe ops)"

text \<open>The entries registered for a name: none when the name is absent.\<close>

definition registered :: "('a, 'w, 'x) event_bus \<Rightarrow> string \<Rightarrow> ('a, 'w, 'x) entries" where
  "registered b n = (case subscribers b n of None \<Rightarrow> [] | Some hs \<Rightarrow> hs)"

text \<open>
  The registry invariant: a name that is present has a non-empty vector (with
  \<open>registered\<close>: a name is present if and only if its vector is non-empty).
\<close>

definition registry_inv :: "('a, 'w, 'x) event_bus \<Rightarrow> bool" where
  "registry_inv b = (\<forall>n. subscribers b n \<noteq> Some [])"

text \<open>
  The calls the loop of \<open>invoke_all\<close> makes, in call order: the entry whose handler is
  called and the arguments it receives. The loop stops after the first handler that
  throws. \<open>trigger_calls\<close> is the calls of one \<open>trigger\<close>, along the branches of
  \<open>trigger\<close>.
\<close>

fun invoked ::
  "('a, 'w, 'x) entries \<Rightarrow> 'a \<Rightarrow> 'w \<Rightarrow> ((sub_id \<times> ('a, 'w, 'x) handler) \<times> 'a) list" where
  "invoked [] args w = []"
| "invoked ((sid, h) # rest) args w =
     ((sid, h), args) # (case invoke h args w of
                           Returned w' \<Rightarrow> invoked rest args w'
                         | Threw x w' \<Rightarrow> [])"

definition trigger_calls ::
  "('a, 'w, 'x) event_bus \<Rightarrow> string \<Rightarrow> 'a \<Rightarrow> 'w \<Rightarrow> ((sub_id \<times> ('a, 'w, 'x) handler) \<times> 'a) list" where
  "trigger_calls b event_name params w =
     (if map_count (subscribers b) event_name \<noteq> 0 then
        (let tuple_args = params;
             (handlers, m) = subscript (subscribers b) event_name
         in invoked handlers tuple_args w)
      else [])"

text \<open>
  Following the specification's words: the handlers currently subscribed to a name
  after a history of calls (latest call first). A subscribe appends to the tail of the
  name's list under the id the counter gives, which has counted the subscribes before
  it from 0; an unsubscribe removes the entries of that name with that id; clear drops
  everything; a trigger changes nothing.
\<close>

fun subscribed_after :: "('a, 'w, 'x) bus_op list \<Rightarrow> string \<Rightarrow> ('a, 'w, 'x) entries" where
  "subscribed_after [] n = []"
| "subscribed_after (Subscribe m h # past) n =
     (if m = n then subscribed_after past n @ [(of_nat (subscribe_calls past), h)]
      else subscribed_after past n)"
| "subscribed_after (Unsubscribe m i # past) n =
     (if m = n then filter (\<lambda>e. fst e \<noteq> i) (subscribed_after past n)
      else subscribed_after past n)"
| "subscribed_after (Trigger m a # past) n = subscribed_after past n"
| "subscribed_after (Clear # past) n = []"

definition currently_subscribed :: "('a, 'w, 'x) bus_op list \<Rightarrow> string \<Rightarrow> ('a, 'w, 'x) entries" where
  "currently_subscribed ops n = subscribed_after (rev ops) n"

section \<open>The event loop\<close>

text \<open>
  A queued task is the closure
  \<^verbatim>\<open>[bus, event_name, tuple_args] { bus->trigger_impl(event_name, tuple_args.get()); }\<close>,
  the only kind \<open>enqueue_event\<close> creates: it is kept as its three captured values. The bus
  is a shared pointer, here an address into the store of buses; shared ownership keeps
  the bus alive until the task has run, so the store is total.
\<close>

record 'a queued_task =
  task_bus :: nat
  task_event_name :: string
  task_args :: 'a

record ('a, 'w, 'x) memory =
  buses :: "nat \<Rightarrow> ('a, 'w, 'x) event_bus"
  world :: 'w

text \<open>Calling the closure: \<open>trigger_impl\<close> on the bus behind the pointer.\<close>

definition run_task ::
  "'a queued_task \<Rightarrow> ('a, 'w, 'x) memory \<Rightarrow> ('x, ('a, 'w, 'x) memory) outcome" where
  "run_task t m =
     (case trigger_impl (buses m (task_bus t)) (task_event_name t) (task_args t) (world m) of
        (b', Returned w') \<Rightarrow> Returned (m\<lparr>buses := (buses m)(task_bus t := b'), world := w'\<rparr>)
      | (b', Threw x w') \<Rightarrow> Threw x (m\<lparr>buses := (buses m)(task_bus t := b'), world := w'\<rparr>))"

text \<open>
  Where the worker thread stands in \<open>process_event_loop\<close>: \<open>Waiting\<close> at
  \<^verbatim>\<open>queue_condition_.wait\<close>; \<open>Running t\<close> from the pop of \<open>t\<close> to the end of
  \<^verbatim>\<open>event_task()\<close>; \<open>Exited\<close> after the \<^verbatim>\<open>break\<close>; \<open>Terminated t x\<close> when
  \<^verbatim>\<open>event_task()\<close> threw \<open>x\<close>: nothing in the loop catches it, the exception leaves
  the thread's function and \<^verbatim>\<open>std::terminate\<close> ends the process.
\<close>

datatype ('a, 'x) worker =
    Waiting
  | Running "'a queued_task"
  | Exited
  | Terminated "'a queued_task" 'x

text \<open>
  The first three fields are the data members of \<open>event_loop\<close> (the mutexes and
  condition variables hold no data: they decide which steps are atomic and when a
  blocked call may go on). \<open>memory\<close> is what the tasks act on. \<open>completed\<close> is a history
  variable that no step reads: the tasks whose \<^verbatim>\<open>event_task()\<close> has returned, in
  order.
\<close>

record ('a, 'w, 'x) loop_state =
  async_event_queue :: "'a queued_task list"
  stop_flag :: bool
  event_loop_thread :: "('a, 'x) worker"
  memory :: "('a, 'w, 'x) memory"
  completed :: "'a queued_task list"

text \<open>The constructor: the flag is false, the queue empty, the thread started.\<close>

definition event_loop_new :: "('a, 'w, 'x) memory \<Rightarrow> ('a, 'w, 'x) loop_state" where
  "event_loop_new m =
     \<lparr>async_event_queue = [], stop_flag = False, event_loop_thread = Waiting,
      memory = m, completed = []\<rparr>"

definition enqueue_event ::
  "('a, 'w, 'x) loop_state \<Rightarrow> nat \<Rightarrow> string \<Rightarrow> 'a \<Rightarrow> ('a, 'w, 'x) loop_state" where
  "enqueue_event s bus event_name params =
     (let tuple_args = params
      in s\<lparr>async_event_queue := async_event_queue s @
             [\<lparr>task_bus = bus, task_event_name = event_name, task_args = tuple_args\<rparr>]\<rparr>)"

text \<open>
  \<^verbatim>\<open>wait_condition_.wait(lock, pred)\<close> is \<^verbatim>\<open>while (!pred()) wait(lock)\<close>: the call
  returns when it has evaluated the predicate, under \<^verbatim>\<open>queue_mutex_\<close>, on an empty
  queue, and the first evaluation is at the call. \<open>None\<close>: the caller stays blocked.
\<close>

definition wait_until_finished :: "('a, 'w, 'x) loop_state \<Rightarrow> ('a, 'w, 'x) loop_state option" where
  "wait_until_finished s = (if async_event_queue s = [] then Some s else None)"

definition stop :: "('a, 'w, 'x) loop_state \<Rightarrow> ('a, 'w, 'x) loop_state" where
  "stop s = s\<lparr>stop_flag := True\<rparr>"

text \<open>
  \<^verbatim>\<open>event_loop_thread_.join()\<close> returns once the thread's function has returned. The
  destructor is \<open>stop\<close> followed by \<open>join\<close>.
\<close>

definition join :: "('a, 'w, 'x) loop_state \<Rightarrow> ('a, 'w, 'x) loop_state option" where
  "join s = (if event_loop_thread s = Exited then Some s else None)"

text \<open>
  One turn of \<open>process_event_loop\<close> is two steps. \<open>worker_dequeue\<close> is the block under
  \<^verbatim>\<open>queue_mutex_\<close>: the wait goes on when the flag is set or the queue is not empty,
  then the thread leaves the loop or pops the head. \<open>worker_execute\<close> is
  \<^verbatim>\<open>event_task()\<close>, outside the lock, followed by the notification of the waiters.
\<close>

definition worker_dequeue :: "('a, 'w, 'x) loop_state \<Rightarrow> ('a, 'w, 'x) loop_state option" where
  "worker_dequeue s =
     (if event_loop_thread s = Waiting \<and> (stop_flag s \<or> async_event_queue s \<noteq> []) then
        (if stop_flag s \<and> async_event_queue s = [] then Some (s\<lparr>event_loop_thread := Exited\<rparr>)
         else (case async_event_queue s of
                 [] \<Rightarrow> None
               | event_task # rest \<Rightarrow>
                   Some (s\<lparr>event_loop_thread := Running event_task, async_event_queue := rest\<rparr>)))
      else None)"

definition worker_execute :: "('a, 'w, 'x) loop_state \<Rightarrow> ('a, 'w, 'x) loop_state option" where
  "worker_execute s =
     (case event_loop_thread s of
        Running event_task \<Rightarrow>
          (case run_task event_task (memory s) of
             Returned m' \<Rightarrow>
               Some (s\<lparr>memory := m', completed := completed s @ [event_task],
                       event_loop_thread := Waiting\<rparr>)
           | Threw x m' \<Rightarrow>
               Some (s\<lparr>memory := m', event_loop_thread := Terminated event_task x\<rparr>))
      | Waiting \<Rightarrow> None
      | Exited \<Rightarrow> None
      | Terminated event_task x \<Rightarrow> None)"

subsection \<open>Interleavings\<close>

text \<open>
  The threads of a program interleave their atomic steps: calls of the clients
  (\<open>Enqueue\<close>, \<open>Stop\<close>, the return of \<open>wait_until_finished\<close>, the return of the join in
  the destructor) and the two steps of the worker. A schedule is one such interleaving;
  \<open>run\<close> is \<open>None\<close> when the schedule cannot happen, because a step of it is not enabled
  where it stands. After \<^verbatim>\<open>std::terminate\<close> no step is enabled.
\<close>

datatype 'a action =
    Enqueue nat string 'a
  | Stop
  | WaitUntilFinished
  | Join
  | WorkerDequeue
  | WorkerExecute

primrec terminated :: "('a, 'x) worker \<Rightarrow> bool" where
  "terminated Waiting = False"
| "terminated (Running t) = False"
| "terminated Exited = False"
| "terminated (Terminated t x) = True"

primrec perform :: "'a action \<Rightarrow> ('a, 'w, 'x) loop_state \<Rightarrow> ('a, 'w, 'x) loop_state option" where
  "perform (Enqueue bus event_name params) s = Some (enqueue_event s bus event_name params)"
| "perform Stop s = Some (stop s)"
| "perform WaitUntilFinished s = wait_until_finished s"
| "perform Join s = join s"
| "perform WorkerDequeue s = worker_dequeue s"
| "perform WorkerExecute s = worker_execute s"

definition step :: "'a action \<Rightarrow> ('a, 'w, 'x) loop_state \<Rightarrow> ('a, 'w, 'x) loop_state option" where
  "step a s = (if terminated (event_loop_thread s) then None else perform a s)"

fun run :: "'a action list \<Rightarrow> ('a, 'w, 'x) loop_state \<Rightarrow> ('a, 'w, 'x) loop_state option" where
  "run [] s = Some s"
| "run (a # sched) s = (case step a s of None \<Rightarrow> None | Some s' \<Rightarrow> run sched s')"

text \<open>The tasks a schedule enqueues, in order.\<close>

fun enqueued :: "'a action list \<Rightarrow> 'a queued_task list" where
  "enqueued [] = []"
| "enqueued (Enqueue bus event_name params # sched) =
     \<lparr>task_bus = bus, task_event_name = event_name, task_args = params\<rparr> # enqueued sched"
| "enqueued (Stop # sched) = enqueued sched"
| "enqueued (WaitUntilFinished # sched) = enqueued sched"
| "enqueued (Join # sched) = enqueued sched"
| "enqueued (WorkerDequeue # sched) = enqueued sched"
| "enqueued (WorkerExecute # sched) = enqueued sched"




section \<open>Properties of the bus\<close>

lemma map_count_eq_0 [simp]: "(map_count m k = 0) = (m k = None)"
  by (simp add: map_count_def split: option.splits)

lemma subscript_present [simp]: "m k = Some v \<Longrightarrow> subscript m k = (v, m)"
  by (simp add: subscript_def)

lemma subscript_absent [simp]: "m k = None \<Longrightarrow> subscript m k = ([], m(k \<mapsto> []))"
  by (simp add: subscript_def)

lemma trigger_bus_unchanged: "fst (trigger b n a w) = b"
  by (cases "subscribers b n") (simp_all add: trigger_def)

lemma trigger_impl_bus_unchanged: "fst (trigger_impl b n a w) = b"
  by (cases "subscribers b n") (simp_all add: trigger_impl_def)

lemma trigger_outcome: "snd (trigger b n a w) = invoke_all (registered b n) a w"
  by (cases "subscribers b n") (simp_all add: trigger_def registered_def)

lemma trigger_impl_outcome: "snd (trigger_impl b n a w) = invoke_all (registered b n) a w"
  by (cases "subscribers b n") (simp_all add: trigger_impl_def registered_def)

lemma subscribe_id: "fst (subscribe b n h) = next_id b"
  by (cases "subscribers b n") (simp_all add: subscribe_def Let_def)

lemma subscribe_next_id: "next_id (snd (subscribe b n h)) = next_id b + 1"
  by (cases "subscribers b n") (simp_all add: subscribe_def Let_def)

lemma subscribe_registered:
  "registered (snd (subscribe b n h)) m =
     (if m = n then registered b n @ [(next_id b, h)] else registered b m)"
  by (cases "subscribers b n") (simp_all add: subscribe_def Let_def registered_def)

lemma unsubscribe_next_id: "next_id (unsubscribe b n i) = next_id b"
  by (cases "subscribers b n") (simp_all add: unsubscribe_def Let_def)

lemma unsubscribe_registered:
  "registered (unsubscribe b n i) m =
     (if m = n then filter (\<lambda>e. fst e \<noteq> i) (registered b n) else registered b m)"
  by (cases "subscribers b n") (simp_all add: unsubscribe_def Let_def registered_def)

lemma clear_registered: "registered (clear b) m = []"
  by (simp add: clear_def registered_def)

lemma trigger_calls_registered: "trigger_calls b n a w = invoked (registered b n) a w"
  by (cases "subscribers b n") (simp_all add: trigger_calls_def registered_def)

lemma run_ops_append: "run_ops (xs @ ys) s = run_ops ys (run_ops xs s)"
  by (induction xs arbitrary: s) simp_all

lemma apply_op_next_id:
  "next_id (fst (apply_op op (b, w))) = next_id b + (if is_subscribe op then 1 else 0)"
  by (cases op) (simp_all add: subscribe_next_id unsubscribe_next_id trigger_bus_unchanged clear_def)

lemma run_ops_next_id:
  "next_id (fst (run_ops ops (b, w))) = next_id b + of_nat (subscribe_calls ops)"
proof (induction ops arbitrary: b w)
  case Nil
  show ?case by (simp add: subscribe_calls_def)
next
  case (Cons op ops)
  obtain b' w' where s': "apply_op op (b, w) = (b', w')" by (cases "apply_op op (b, w)")
  have "next_id b' = next_id b + (if is_subscribe op then 1 else 0)"
    using apply_op_next_id [of op b w] s' by simp
  then show ?case using Cons.IH [of b' w'] s'
    by (simp add: subscribe_calls_def)
qed

lemma apply_op_registered:
  "registered (fst (apply_op op (b, w))) n =
     (case op of
        Subscribe m h \<Rightarrow> if m = n then registered b n @ [(next_id b, h)] else registered b n
      | Unsubscribe m i \<Rightarrow> if m = n then filter (\<lambda>e. fst e \<noteq> i) (registered b n) else registered b n
      | Trigger m a \<Rightarrow> registered b n
      | Clear \<Rightarrow> [])"
  by (cases op)
     (simp_all add: subscribe_registered unsubscribe_registered trigger_bus_unchanged clear_registered)

lemma registered_new_bus: "registered new_bus n = []"
  by (simp add: registered_def new_bus_def)

lemma subscribe_calls_rev: "subscribe_calls (rev ops) = subscribe_calls ops"
  by (simp add: subscribe_calls_def rev_filter [symmetric])

lemma registered_run_ops:
  "registered (fst (run_ops ops (new_bus, w0))) n = currently_subscribed ops n
   \<and> next_id (fst (run_ops ops (new_bus, w0))) = of_nat (subscribe_calls ops)"
proof (induction ops rule: rev_induct)
  case Nil
  show ?case by (simp add: currently_subscribed_def registered_new_bus subscribe_calls_def) (simp add: new_bus_def)
next
  case (snoc op ops)
  obtain b w where s: "run_ops ops (new_bus, w0) = (b, w)" by (cases "run_ops ops (new_bus, w0)")
  have reg: "registered b n = subscribed_after (rev ops) n"
    and nid: "next_id b = of_nat (subscribe_calls ops)"
    using snoc s by (simp_all add: currently_subscribed_def)
  have "registered (fst (apply_op op (b, w))) n = subscribed_after (op # rev ops) n"
    unfolding apply_op_registered using reg nid
    by (cases op) (simp_all add: subscribe_calls_rev)
  moreover have "next_id (fst (apply_op op (b, w))) = of_nat (subscribe_calls (ops @ [op]))"
    unfolding apply_op_next_id using nid by (simp add: subscribe_calls_def)
  ultimately show ?case
    by (simp add: run_ops_append s currently_subscribed_def)
qed


lemma returned_ids_closed:
  "returned_ids ops (b, w) = map (\<lambda>k. next_id b + of_nat k) [0..<subscribe_calls ops]"
proof (induction ops arbitrary: b w)
  case Nil
  show ?case by (simp add: subscribe_calls_def)
next
  case (Cons op ops)
  show ?case
  proof (cases op)
    case (Subscribe n h)
    have "map (\<lambda>k. next_id b + 1 + of_nat k) [0..<subscribe_calls ops]
          = map (\<lambda>k. next_id b + of_nat k) [Suc 0..<Suc (subscribe_calls ops)]"
      by (simp add: map_Suc_upt [symmetric] del: upt_Suc) 
    then show ?thesis using Subscribe Cons.IH [of "snd (subscribe b n h)" w]
      by (simp add: subscribe_id subscribe_next_id subscribe_calls_def upt_rec [of 0] del: upt_Suc)
  next
    case (Unsubscribe n i)
    then show ?thesis using Cons.IH [of "unsubscribe b n i" w]
      by (simp add: unsubscribe_next_id subscribe_calls_def)
  next
    case (Trigger n a)
    then show ?thesis
      using Cons.IH [of b "outcome_world (snd (trigger b n a w))"]
      by (simp add: trigger_bus_unchanged subscribe_calls_def)
  next
    case Clear
    then show ?thesis using Cons.IH [of "clear b" w]
      by (simp add: clear_def subscribe_calls_def)
  qed
qed

lemma sint_small: "k < 2 ^ 31 \<Longrightarrow> sint (of_nat k :: 32 word) = int k"
  by (simp add: signed_of_nat signed_take_bit_int_eq_self)

lemma returned_ids_new_bus:
  "returned_ids ops (new_bus, w) = map of_nat [0..<subscribe_calls ops]"
  by (simp add: returned_ids_closed new_bus_def)

lemma invoked_returned:
  "invoke_all hs a w = Returned w' \<Longrightarrow> invoked hs a w = map (\<lambda>e. (e, a)) hs"
proof (induction hs arbitrary: w)
  case Nil
  show ?case by simp
next
  case (Cons e hs)
  obtain sid h where e: "e = (sid, h)" by (cases e)
  show ?case using Cons e by (cases "invoke h a w") simp_all
qed

lemma invoked_first_thrower:
  "invoke_all hs a w = Threw x w' \<Longrightarrow>
   \<exists>k w1. k < length hs \<and> invoke_all (take k hs) a w = Returned w1
     \<and> invoke (snd (hs ! k)) a w1 = Threw x w'
     \<and> invoked hs a w = map (\<lambda>e. (e, a)) (take (Suc k) hs)"
proof (induction hs arbitrary: w)
  case Nil
  then show ?case by simp
next
  case (Cons e hs)
  obtain sid h where e: "e = (sid, h)" by (cases e)
  show ?case
  proof (cases "invoke h a w")
    case (Returned w0)
    then have "invoke_all hs a w0 = Threw x w'" using Cons.prems e by simp
    then obtain k w1 where k: "k < length hs" "invoke_all (take k hs) a w0 = Returned w1"
      "invoke (snd (hs ! k)) a w1 = Threw x w'"
      "invoked hs a w0 = map (\<lambda>e. (e, a)) (take (Suc k) hs)"
      using Cons.IH by blast
    have "Suc k < length (e # hs) \<and> invoke_all (take (Suc k) (e # hs)) a w = Returned w1
      \<and> invoke (snd ((e # hs) ! Suc k)) a w1 = Threw x w'
      \<and> invoked (e # hs) a w = map (\<lambda>e. (e, a)) (take (Suc (Suc k)) (e # hs))"
      using k Returned e by simp
    then show ?thesis by blast
  next
    case (Threw y w0)
    then have "0 < length (e # hs) \<and> invoke_all (take 0 (e # hs)) a w = Returned w
      \<and> invoke (snd ((e # hs) ! 0)) a w = Threw x w'
      \<and> invoked (e # hs) a w = map (\<lambda>e. (e, a)) (take (Suc 0) (e # hs))"
      using Cons.prems e by simp
    then show ?thesis by blast
  qed
qed

lemma registry_inv_new_bus: "registry_inv new_bus"
  by (simp add: registry_inv_def new_bus_def)

lemma registry_inv_subscribe: "registry_inv b \<Longrightarrow> registry_inv (snd (subscribe b n h))"
  by (cases "subscribers b n") (simp_all add: registry_inv_def subscribe_def Let_def)

lemma registry_inv_unsubscribe: "registry_inv b \<Longrightarrow> registry_inv (unsubscribe b n i)"
  by (cases "subscribers b n") (simp_all add: registry_inv_def unsubscribe_def Let_def)

lemma registry_inv_clear: "registry_inv (clear b)"
  by (simp add: registry_inv_def clear_def)

lemma registry_inv_apply_op: "registry_inv b \<Longrightarrow> registry_inv (fst (apply_op op (b, w)))"
  by (cases op)
     (simp_all add: registry_inv_subscribe registry_inv_unsubscribe registry_inv_clear
        trigger_bus_unchanged)

lemma registry_inv_run_ops: "registry_inv b \<Longrightarrow> registry_inv (fst (run_ops ops (b, w)))"
proof (induction ops arbitrary: b w)
  case Nil
  then show ?case by simp
next
  case (Cons op ops)
  obtain b' w' where s': "apply_op op (b, w) = (b', w')" by (cases "apply_op op (b, w)")
  have "registry_inv b'" using registry_inv_apply_op [OF Cons.prems, of op w] s' by simp
  then show ?case using Cons.IH [of b' w'] s' by simp
qed

lemma unsubscribe_last:
  "registered b n \<noteq> [] \<Longrightarrow> filter (\<lambda>e. fst e \<noteq> i) (registered b n) = [] \<Longrightarrow>
   subscribers (unsubscribe b n i) n = None"
  by (cases "subscribers b n") (simp_all add: registered_def unsubscribe_def Let_def)

lemma unsubscribe_absent_name: "subscribers b n = None \<Longrightarrow> unsubscribe b n i = b"
  by (simp add: unsubscribe_def)

lemma unsubscribe_unknown_id:
  assumes "registry_inv b" "i \<notin> fst ` set (registered b n)"
  shows "unsubscribe b n i = b"
proof (cases "subscribers b n")
  case None
  then show ?thesis by (simp add: unsubscribe_absent_name)
next
  case (Some hs)
  have ne: "hs \<noteq> []" using assms(1) Some by (auto simp: registry_inv_def)
  have "filter (\<lambda>pair. \<not> (fst pair = i)) hs = hs"
    using assms(2) Some by (auto simp: registered_def filter_id_conv)
  then show ?thesis using Some ne
    by (simp add: unsubscribe_def Let_def map_upd_triv)
qed

lemma trigger_no_subscribers:
  "registered b n = [] \<Longrightarrow> trigger b n a w = (b, Returned w) \<and> trigger_calls b n a w = []"
  by (cases "subscribers b n") (simp_all add: registered_def trigger_def trigger_calls_def)

lemma subscribe_calls_replicate:
  "subscribe_calls (replicate k (Subscribe n h)) = k"
  by (simp add: subscribe_calls_def)

lemma invoke_all_append:
  "invoke_all pre a w = Returned w1 \<Longrightarrow> invoke_all (pre @ rest) a w = invoke_all rest a w1"
  by (induction pre a w rule: invoke_all.induct) (auto split: outcome.splits)

subsection \<open>Trigger is a read\<close>

text \<open>
  Claim C9. For every bus, event name, arguments and handler memory, \<open>trigger\<close> and
  \<open>trigger_impl\<close> leave the bus as it was: the registry and the id counter after the call
  are those before it, whether the handlers return or throw. The one write they could
  make, the insertion by \<^verbatim>\<open>operator[]\<close>, is behind the \<^verbatim>\<open>count\<close> check.
\<close>

theorem trigger_leaves_bus_unchanged:
  "fst (trigger b n a w) = b \<and> fst (trigger_impl b n a w) = b"
  by (simp add: trigger_bus_unchanged trigger_impl_bus_unchanged)

theorem trigger_leaves_bus_unchanged_witness:
  "fst (trigger (snd (subscribe new_bus ''e'' (\<lambda>(a::nat) (w::nat). (Returned (w + a) :: (unit, nat) outcome))))
        ''e'' 3 0) = snd (subscribe new_bus ''e'' (\<lambda>a w. Returned (w + a)))
   \<and> snd (trigger (snd (subscribe new_bus ''e'' (\<lambda>(a::nat) (w::nat). (Returned (w + a) :: (unit, nat) outcome))))
        ''e'' 3 0) = Returned 3"
  using trigger_leaves_bus_unchanged
    [of "snd (subscribe new_bus ''e'' (\<lambda>(a::nat) (w::nat). (Returned (w + a) :: (unit, nat) outcome)))" "''e''" 3 0]
  by (simp add: trigger_outcome subscribe_registered registered_new_bus invoke_def)

subsection \<open>Unknown names and ids\<close>

text \<open>
  Claim C7. On a bus reached from a new one by any calls: a trigger on a name with no
  subscriber calls nothing, returns normally and leaves bus and memory as they were; an
  unsubscribe on a name that is not in the registry, or with an id that no entry of the
  name carries, leaves the bus as it was. Neither has an error to report.
\<close>

theorem unknown_name_or_id_is_noop:
  assumes "run_ops ops (new_bus, w0) = (b, w)"
  shows "(registered b n = [] \<longrightarrow> trigger b n a w' = (b, Returned w') \<and> trigger_calls b n a w' = [])
       \<and> (subscribers b n = None \<longrightarrow> unsubscribe b n i = b)
       \<and> (i \<notin> fst ` set (registered b n) \<longrightarrow> unsubscribe b n i = b)"
proof -
  have "registry_inv b"
    using registry_inv_run_ops [OF registry_inv_new_bus, of ops w0] assms by simp
  then show ?thesis
    by (simp add: trigger_no_subscribers unsubscribe_absent_name unsubscribe_unknown_id)
qed

theorem unknown_name_or_id_is_noop_witness:
  "trigger (fst (run_ops [Subscribe ''e'' ((\<lambda>a w. Returned (w + a)) :: (nat, nat, unit) handler)] (new_bus, 0)))
      ''other'' 5 7
     = (fst (run_ops [Subscribe ''e'' ((\<lambda>a w. Returned (w + a)) :: (nat, nat, unit) handler)] (new_bus, 0)),
        Returned 7)
   \<and> unsubscribe (fst (run_ops [Subscribe ''e'' ((\<lambda>a w. Returned (w + a)) :: (nat, nat, unit) handler)] (new_bus, 0)))
      ''other'' 0
     = fst (run_ops [Subscribe ''e'' ((\<lambda>a w. Returned (w + a)) :: (nat, nat, unit) handler)] (new_bus, 0))
   \<and> unsubscribe (fst (run_ops [Subscribe ''e'' ((\<lambda>a w. Returned (w + a)) :: (nat, nat, unit) handler)] (new_bus, 0)))
      ''e'' 9
     = fst (run_ops [Subscribe ''e'' ((\<lambda>a w. Returned (w + a)) :: (nat, nat, unit) handler)] (new_bus, 0))"
proof -
  let ?ops = "[Subscribe ''e'' ((\<lambda>a w. Returned (w + a)) :: (nat, nat, unit) handler)]"
  define b where "b = fst (run_ops ?ops (new_bus, 0))"
  have run: "run_ops ?ops (new_bus, 0) = (b, snd (run_ops ?ops (new_bus, 0)))"
    by (simp add: b_def)
  have other: "subscribers b ''other'' = None" "registered b ''other'' = []"
    by (simp_all add: b_def subscribe_def new_bus_def registered_def)
  have e: "9 \<notin> fst ` set (registered b ''e'')"
    by (simp add: b_def subscribe_registered registered_new_bus) (simp add: new_bus_def)
  have "trigger b ''other'' 5 7 = (b, Returned 7)" "unsubscribe b ''other'' 0 = b"
    using unknown_name_or_id_is_noop [OF run, of "''other''" 5 7 0] other by simp_all
  moreover have "unsubscribe b ''e'' 9 = b"
    using unknown_name_or_id_is_noop [OF run, of "''e''" 5 7 9] e by simp
  ultimately show ?thesis unfolding b_def by simp
qed

subsection \<open>The registry invariant\<close>

text \<open>
  Claim C8. Every bus reached from a new one satisfies the registry invariant, and each
  of subscribe, unsubscribe, trigger and clear preserves it: a name is present if and
  only if its vector is non-empty. The unsubscribe that removes the last entries of a
  name removes the name in the same call.
\<close>

theorem registry_invariant:
  "registry_inv (fst (run_ops ops (new_bus, w0)))
   \<and> (registry_inv b \<longrightarrow>
        registry_inv (snd (subscribe b n h)) \<and> registry_inv (unsubscribe b n i)
        \<and> registry_inv (fst (trigger b n a w)) \<and> registry_inv (clear b)
        \<and> ((subscribers b n \<noteq> None) = (registered b n \<noteq> [])))
   \<and> (registered b n \<noteq> [] \<and> filter (\<lambda>e. fst e \<noteq> i) (registered b n) = []
        \<longrightarrow> subscribers (unsubscribe b n i) n = None)"
proof -
  have "registry_inv b \<Longrightarrow> (subscribers b n \<noteq> None) = (registered b n \<noteq> [])"
    by (cases "subscribers b n") (auto simp: registry_inv_def registered_def)
  then show ?thesis
    by (simp add: registry_inv_run_ops registry_inv_new_bus registry_inv_subscribe
        registry_inv_unsubscribe registry_inv_clear trigger_bus_unchanged unsubscribe_last)
qed

theorem registry_invariant_witness:
  "registry_inv (snd (subscribe new_bus ''e'' ((\<lambda>a w. Returned (w + a)) :: (nat, nat, unit) handler)))
   \<and> subscribers (snd (subscribe new_bus ''e'' ((\<lambda>a w. Returned (w + a)) :: (nat, nat, unit) handler)))
        ''e'' \<noteq> None
   \<and> registry_inv (unsubscribe
        (snd (subscribe new_bus ''e'' ((\<lambda>a w. Returned (w + a)) :: (nat, nat, unit) handler))) ''e'' 0)
   \<and> subscribers (unsubscribe
        (snd (subscribe new_bus ''e'' ((\<lambda>a w. Returned (w + a)) :: (nat, nat, unit) handler))) ''e'' 0)
        ''e'' = None"
proof -
  let ?h = "(\<lambda>a w. Returned (w + a)) :: (nat, nat, unit) handler"
  define b where "b = snd (subscribe new_bus ''e'' ?h)"
  have b: "b = fst (run_ops [Subscribe ''e'' ?h] (new_bus, 0 :: nat))"
    by (simp add: b_def)
  have inv: "registry_inv b"
    using registry_invariant [of "[Subscribe ''e'' ?h]" "0 :: nat", THEN conjunct1] unfolding b .
  have reg: "registered b ''e'' = [(0, ?h)]"
    by (simp add: b_def subscribe_registered registered_new_bus) (simp add: new_bus_def)
  have "registry_inv (unsubscribe b ''e'' 0) \<and> subscribers b ''e'' \<noteq> None
        \<and> subscribers (unsubscribe b ''e'' 0) ''e'' = None"
    using registry_invariant [of "[]" "0 :: nat" b "''e''" ?h 0 5 "0 :: nat"] inv reg
    by auto
  with inv show ?thesis
    unfolding b_def by blast
qed

subsection \<open>What a trigger calls\<close>

text \<open>
  Claim C2, as stated, fails when a handler throws: the handlers subscribed after it are
  not called. Below, two handlers are subscribed to one name and the first throws; the
  trigger calls the first only, and the memory the second would have changed is as it
  was.
\<close>

theorem throwing_handler_counterexample:
  "map fst (currently_subscribed
      [Subscribe ''e'' ((\<lambda>a w. Threw () w) :: (nat, nat, unit) handler),
       Subscribe ''e'' (\<lambda>a w. Returned (w + a))] ''e'') = [0, 1]
   \<and> map (\<lambda>c. fst (fst c)) (trigger_calls
        (fst (run_ops [Subscribe ''e'' ((\<lambda>a w. Threw () w) :: (nat, nat, unit) handler),
                       Subscribe ''e'' (\<lambda>a w. Returned (w + a))] (new_bus, 0)))
        ''e'' 5 0) = [0]
   \<and> snd (trigger
        (fst (run_ops [Subscribe ''e'' ((\<lambda>a w. Threw () w) :: (nat, nat, unit) handler),
                       Subscribe ''e'' (\<lambda>a w. Returned (w + a))] (new_bus, 0)))
        ''e'' 5 0) = Threw () 0"
  by (simp add: currently_subscribed_def subscribe_calls_def trigger_calls_registered
      trigger_outcome subscribe_registered registered_new_bus invoke_def)
     (simp add: new_bus_def)

text \<open>
  Claim C2, amended. After any sequence of calls on a new bus, a trigger on a name runs
  the loop over exactly the handlers currently subscribed to the name, in subscription
  order, each with the arguments of the trigger. When the trigger returns, the calls are
  all of them. When it throws, there is a first handler that threw, at position \<open>k\<close>:
  the \<open>k\<close> handlers before it have all returned, it threw the exception of the trigger
  in the memory they left, and the calls are the first \<open>k + 1\<close> handlers and no more,
  so that the handlers subscribed after it are not called. (Currently subscribed is by
  id: an unsubscribe removes every entry of the name that carries the id.)
\<close>

theorem trigger_invokes_subscribed_until_throw:
  assumes "run_ops ops (new_bus, w0) = (b, w)"
  shows "snd (trigger b n a w') = invoke_all (currently_subscribed ops n) a w'
       \<and> (case snd (trigger b n a w') of
            Returned w'' \<Rightarrow>
              trigger_calls b n a w' = map (\<lambda>e. (e, a)) (currently_subscribed ops n)
          | Threw x w'' \<Rightarrow>
              (\<exists>k w1. k < length (currently_subscribed ops n)
                 \<and> invoke_all (take k (currently_subscribed ops n)) a w' = Returned w1
                 \<and> invoke (snd (currently_subscribed ops n ! k)) a w1 = Threw x w''
                 \<and> trigger_calls b n a w'
                     = map (\<lambda>e. (e, a)) (take (Suc k) (currently_subscribed ops n))))"
proof -
  have reg: "registered b n = currently_subscribed ops n"
    using registered_run_ops [of ops w0 n] assms by simp
  show ?thesis
  proof (cases "invoke_all (currently_subscribed ops n) a w'")
    case (Returned w'')
    then show ?thesis
      by (simp add: trigger_outcome trigger_calls_registered reg invoked_returned)
  next
    case (Threw x w'')
    then show ?thesis
      using invoked_first_thrower [OF Threw]
      by (simp add: trigger_outcome trigger_calls_registered reg)
  qed
qed

theorem trigger_invokes_subscribed_until_throw_witness:
  "map (\<lambda>c. (fst (fst c), snd c)) (trigger_calls
        (fst (run_ops [Subscribe ''e'' ((\<lambda>a w. Returned (w + a)) :: (nat, nat, unit) handler),
                       Subscribe ''e'' (\<lambda>a w. Returned (w * a)),
                       Unsubscribe ''e'' 0,
                       Subscribe ''e'' (\<lambda>a w. Returned (w + 1))] (new_bus, 0)))
        ''e'' 5 3) = [(1, 5), (2, 5)]
   \<and> snd (trigger
        (fst (run_ops [Subscribe ''e'' ((\<lambda>a w. Returned (w + a)) :: (nat, nat, unit) handler),
                       Subscribe ''e'' (\<lambda>a w. Returned (w * a)),
                       Unsubscribe ''e'' 0,
                       Subscribe ''e'' (\<lambda>a w. Returned (w + 1))] (new_bus, 0)))
        ''e'' 5 3) = Returned 16
   \<and> map (\<lambda>c. (fst (fst c), snd c)) (trigger_calls
        (fst (run_ops [Subscribe ''e'' ((\<lambda>a w. Returned (w + a)) :: (nat, nat, unit) handler),
                       Subscribe ''e'' (\<lambda>a w. Threw () (w * a)),
                       Subscribe ''e'' (\<lambda>a w. Returned (w + 1))] (new_bus, 0)))
        ''e'' 5 3) = [(0, 5), (1, 5)]
   \<and> snd (trigger
        (fst (run_ops [Subscribe ''e'' ((\<lambda>a w. Returned (w + a)) :: (nat, nat, unit) handler),
                       Subscribe ''e'' (\<lambda>a w. Threw () (w * a)),
                       Subscribe ''e'' (\<lambda>a w. Returned (w + 1))] (new_bus, 0)))
        ''e'' 5 3) = Threw () 40"
proof -
  let ?ops = "[Subscribe ''e'' ((\<lambda>a w. Returned (w + a)) :: (nat, nat, unit) handler),
                       Subscribe ''e'' (\<lambda>a w. Returned (w * a)),
                       Unsubscribe ''e'' 0,
                       Subscribe ''e'' (\<lambda>a w. Returned (w + 1))]"
  define b where "b = fst (run_ops ?ops (new_bus, 0))"
  have run: "run_ops ?ops (new_bus, 0) = (b, snd (run_ops ?ops (new_bus, 0)))"
    by (simp add: b_def)
  have cs: "currently_subscribed ?ops ''e'' = [(1, \<lambda>a w. Returned (w * a)), (2, \<lambda>a w. Returned (w + 1))]"
    by (simp add: currently_subscribed_def subscribe_calls_def)
  note th = trigger_invokes_subscribed_until_throw [OF run, of "''e''" 5 3, unfolded cs]
  have out: "snd (trigger b ''e'' 5 3) = Returned 16"
    using th by (simp add: invoke_def)
  have "trigger_calls b ''e'' 5 3
        = map (\<lambda>e. (e, 5)) [(1, \<lambda>a w. Returned (w * a)), (2, \<lambda>a w. Returned (w + 1))]"
    using th unfolding out by simp
  then have returning: "map (\<lambda>c. (fst (fst c), snd c)) (trigger_calls b ''e'' 5 3) = [(1, 5), (2, 5)]
      \<and> snd (trigger b ''e'' 5 3) = Returned 16"
    using out by simp
  let ?ops' = "[Subscribe ''e'' ((\<lambda>a w. Returned (w + a)) :: (nat, nat, unit) handler),
                       Subscribe ''e'' (\<lambda>a w. Threw () (w * a)),
                       Subscribe ''e'' (\<lambda>a w. Returned (w + 1))]"
  define b' where "b' = fst (run_ops ?ops' (new_bus, 0))"
  have run': "run_ops ?ops' (new_bus, 0) = (b', snd (run_ops ?ops' (new_bus, 0)))"
    by (simp add: b'_def)
  let ?cs' = "[(0, \<lambda>a w. Returned (w + a)), (1, \<lambda>a w. Threw () (w * a)),
      (2, \<lambda>a w. Returned (w + 1))] :: (nat, nat, unit) entries"
  have cs': "currently_subscribed ?ops' ''e'' = ?cs'"
    by (simp add: currently_subscribed_def subscribe_calls_def)
  note th' = trigger_invokes_subscribed_until_throw [OF run', of "''e''" 5 3, unfolded cs']
  have out': "snd (trigger b' ''e'' 5 3) = Threw () 40"
    using th' [THEN conjunct1] by (simp add: invoke_def)
  have "\<exists>k w1. k < length ?cs' \<and> invoke_all (take k ?cs') 5 3 = Returned w1
      \<and> invoke (snd (?cs' ! k)) 5 w1 = Threw () 40
      \<and> trigger_calls b' ''e'' 5 3 = map (\<lambda>e. (e, 5)) (take (Suc k) ?cs')"
    using th' [THEN conjunct2] by (simp only: out' outcome.case)
  then obtain k w1 where k: "k < length ?cs'" "invoke_all (take k ?cs') 5 3 = Returned w1"
    "invoke (snd (?cs' ! k)) 5 w1 = Threw () 40"
    "trigger_calls b' ''e'' 5 3 = map (\<lambda>e. (e, 5)) (take (Suc k) ?cs')"
    by blast
  have "k = 0 \<or> k = 1 \<or> k = 2" using k(1) by auto
  then have "k = 1"
    using k(2) k(3) by (auto simp: invoke_def)
  then have throwing: "map (\<lambda>c. (fst (fst c), snd c)) (trigger_calls b' ''e'' 5 3) = [(0, 5), (1, 5)]"
    using k(4) by simp
  show ?thesis
    unfolding b_def [symmetric] b'_def [symmetric] using returning throwing out' by simp
qed

subsection \<open>Subscription ids\<close>

text \<open>
  Claim C4, as stated, fails once the 32-bit counter has run through the non-negative
  values: of \<open>2 ^ 31 + 1\<close> subscribes on a new bus, the last but one returns
  \<^verbatim>\<open>INT_MAX\<close> and the last returns \<^verbatim>\<open>INT_MIN\<close>, which is smaller than every id before
  it.
\<close>

theorem subscription_id_wraps_counterexample:
  "sint (returned_ids (replicate (2 ^ 31 + 1) (Subscribe ''e'' ((\<lambda>a w. Returned w) :: (unit, unit, unit) handler)))
           (new_bus, ()) ! (2 ^ 31 - 1)) = 2147483647
   \<and> sint (returned_ids (replicate (2 ^ 31 + 1) (Subscribe ''e'' ((\<lambda>a w. Returned w) :: (unit, unit, unit) handler)))
           (new_bus, ()) ! (2 ^ 31)) = - 2147483648"
  by (simp add: returned_ids_new_bus subscribe_calls_replicate del: upt_Suc)

text \<open>
  Claim C4, amended. For every sequence of calls on a new bus (unsubscribe, trigger and
  clear among them) with at most \<open>2 ^ 31\<close> subscribes, the ids returned are
  \<open>0, 1, 2, \<dots>\<close> in call order: each is greater than every id returned before it, and
  none is returned twice.
\<close>

theorem subscription_ids_increase:
  assumes "subscribe_calls ops \<le> 2 ^ 31"
  shows "map sint (returned_ids ops (new_bus, w)) = map int [0..<subscribe_calls ops]
       \<and> sorted_wrt (\<lambda>i j. sint i < sint j) (returned_ids ops (new_bus, w))
       \<and> distinct (returned_ids ops (new_bus, w))"
proof -
  let ?n = "subscribe_calls ops"
  have small: "\<And>k. k \<in> set [0..<?n] \<Longrightarrow> sint (of_nat k :: 32 word) = int k"
    using assms by (simp add: sint_small)
  have eq: "map sint (returned_ids ops (new_bus, w)) = map int [0..<?n]"
    unfolding returned_ids_new_bus map_map using small by (simp del: upt_Suc)
  have "sorted_wrt (<) (map int [0..<?n])"
    by (simp add: sorted_wrt_map del: upt_Suc)
  then have srt: "sorted_wrt (\<lambda>i j. sint i < sint j) (returned_ids ops (new_bus, w))"
    unfolding eq [symmetric] by (simp add: sorted_wrt_map)
  have "distinct (map int [0..<?n])"
    by (simp add: distinct_map del: upt_Suc)
  then have "distinct (returned_ids ops (new_bus, w))"
    unfolding eq [symmetric] by (simp add: distinct_map)
  with eq srt show ?thesis by simp
qed

theorem subscription_ids_increase_witness:
  "map sint (returned_ids
      [Subscribe ''a'' ((\<lambda>a w. Returned (w + a)) :: (nat, nat, unit) handler),
       Unsubscribe ''a'' 0, Clear,
       Subscribe ''b'' (\<lambda>a w. Returned w), Trigger ''b'' 4,
       Subscribe ''a'' (\<lambda>a w. Threw () w)] (new_bus, 0)) = [0, 1, 2]"
  using subscription_ids_increase
    [of "[Subscribe ''a'' ((\<lambda>a w. Returned (w + a)) :: (nat, nat, unit) handler),
       Unsubscribe ''a'' 0, Clear,
       Subscribe ''b'' (\<lambda>a w. Returned w), Trigger ''b'' 4,
       Subscribe ''a'' (\<lambda>a w. Threw () w)]" 0]
  by (simp add: subscribe_calls_def)

section \<open>Properties of the event loop\<close>


lemma enqueued_append: "enqueued (xs @ ys) = enqueued xs @ enqueued ys"
  by (induction xs rule: enqueued.induct) simp_all






lemma step_exited:
  assumes "event_loop_thread s = Exited" "step a s = Some s'"
  shows "event_loop_thread s' = Exited \<and> completed s' = completed s \<and> memory s' = memory s
         \<and> stop_flag s' = (stop_flag s \<or> a = Stop)
         \<and> async_event_queue s' = async_event_queue s @ enqueued [a]"
  using assms
  by (cases a)
     (auto simp: step_def enqueue_event_def stop_def wait_until_finished_def join_def
        worker_dequeue_def worker_execute_def split: if_splits)

lemma run_exited:
  "event_loop_thread s = Exited \<Longrightarrow> run sched s = Some s' \<Longrightarrow>
   event_loop_thread s' = Exited \<and> completed s' = completed s \<and> memory s' = memory s
   \<and> async_event_queue s' = async_event_queue s @ enqueued sched"
proof (induction sched arbitrary: s)
  case Nil
  then show ?case by simp
next
  case (Cons a sched)
  from Cons.prems(2) obtain s1 where s1: "step a s = Some s1" "run sched s1 = Some s'"
    by (auto split: option.splits)
  have e: "enqueued (a # sched) = enqueued [a] @ enqueued sched"
    using enqueued_append [of "[a]" sched] by simp
  from step_exited [OF Cons.prems(1) s1(1)] Cons.IH [OF _ s1(2)] show ?case
    unfolding e by simp
qed









lemmas loop_eval = step_def enqueue_event_def stop_def join_def wait_until_finished_def
  worker_dequeue_def worker_execute_def run_task_def event_loop_new_def trigger_impl_def new_bus_def

subsection \<open>Order of execution\<close>



subsection \<open>Stop and destruction\<close>



subsection \<open>Enqueueing\<close>

text \<open>
  Claim C10. \<open>enqueue_event\<close> has no failure: in every state, stopped or not, it
  appends the task to the tail of the queue and changes nothing else, and the step is
  enabled in every live process. Once the worker has left its loop, a task enqueued
  afterwards stays in the queue for ever: no later step completes a task or changes the
  memory.
\<close>

theorem enqueue_event_never_rejects:
  "async_event_queue (enqueue_event s bus n p)
     = async_event_queue s @ [\<lparr>task_bus = bus, task_event_name = n, task_args = p\<rparr>]
   \<and> stop_flag (enqueue_event s bus n p) = stop_flag s
   \<and> (\<not> terminated (event_loop_thread s) \<longrightarrow>
        step (Enqueue bus n p) s = Some (enqueue_event s bus n p))
   \<and> (event_loop_thread s = Exited \<longrightarrow>
        (\<forall>sched s'. run (Enqueue bus n p # sched) s = Some s' \<longrightarrow>
           event_loop_thread s' = Exited \<and> completed s' = completed s \<and> memory s' = memory s
           \<and> async_event_queue s' = async_event_queue s
               @ \<lparr>task_bus = bus, task_event_name = n, task_args = p\<rparr> # enqueued sched))"
proof -
  have "event_loop_thread s = Exited \<longrightarrow>
        (\<forall>sched s'. run (Enqueue bus n p # sched) s = Some s' \<longrightarrow>
           event_loop_thread s' = Exited \<and> completed s' = completed s \<and> memory s' = memory s
           \<and> async_event_queue s' = async_event_queue s
               @ \<lparr>task_bus = bus, task_event_name = n, task_args = p\<rparr> # enqueued sched)"
    using run_exited [of s "Enqueue bus n p # _"] by auto
  then show ?thesis
    by (simp add: enqueue_event_def step_def)
qed

theorem enqueue_event_never_rejects_witness:
  "run [Stop, WorkerDequeue]
       (event_loop_new (\<lparr>buses = \<lambda>p. new_bus, world = 0\<rparr> :: (nat, nat, unit) memory))
     = Some \<lparr>async_event_queue = [], stop_flag = True, event_loop_thread = Exited,
             memory = \<lparr>buses = \<lambda>p. new_bus, world = 0\<rparr>, completed = []\<rparr>
   \<and> run [Enqueue 0 ''e'' 1, Stop, Join]
        (\<lparr>async_event_queue = [], stop_flag = True, event_loop_thread = Exited,
          memory = \<lparr>buses = \<lambda>p. new_bus, world = 0\<rparr>, completed = []\<rparr>
           :: (nat, nat, unit) loop_state)
     = Some \<lparr>async_event_queue = [\<lparr>task_bus = 0, task_event_name = ''e'', task_args = 1\<rparr>],
             stop_flag = True, event_loop_thread = Exited,
             memory = \<lparr>buses = \<lambda>p. new_bus, world = 0\<rparr>, completed = []\<rparr>
   \<and> run [Enqueue 0 ''e'' 1, WorkerDequeue]
        (\<lparr>async_event_queue = [], stop_flag = True, event_loop_thread = Exited,
          memory = \<lparr>buses = \<lambda>p. new_bus, world = 0\<rparr>, completed = []\<rparr>
           :: (nat, nat, unit) loop_state)
     = None"
proof -
  let ?m = "\<lparr>buses = \<lambda>p. new_bus, world = 0\<rparr> :: (nat, nat, unit) memory"
  let ?s = "\<lparr>async_event_queue = [], stop_flag = True, event_loop_thread = Exited,
             memory = ?m, completed = []\<rparr> :: (nat, nat, unit) loop_state"
  let ?s' = "\<lparr>async_event_queue = [\<lparr>task_bus = 0, task_event_name = ''e'', task_args = 1 :: nat\<rparr>],
             stop_flag = True, event_loop_thread = Exited,
             memory = ?m, completed = []\<rparr> :: (nat, nat, unit) loop_state"
  have r0: "run [Stop, WorkerDequeue] (event_loop_new ?m) = Some ?s"
    by (simp add: loop_eval)
  have r1: "run [Enqueue 0 ''e'' 1, Stop, Join] ?s = Some ?s'"
    by (simp add: loop_eval)
  have r2: "run [Enqueue 0 ''e'' 1, WorkerDequeue] ?s = None"
    by (simp add: loop_eval)
  have "event_loop_thread ?s = Exited" by simp
  with enqueue_event_never_rejects [of ?s 0 "''e''" 1] r1
  have "completed ?s' = completed ?s \<and> async_event_queue ?s'
          = async_event_queue ?s @ \<lparr>task_bus = 0, task_event_name = ''e'', task_args = 1\<rparr>
              # enqueued [Stop, Join]"
    by blast
  then show ?thesis using r0 r1 r2 by simp
qed

subsection \<open>Waiting for the queue\<close>

text \<open>
  Claim C1 fails on the code. One task is enqueued and the worker pops it; the queue is
  now empty, so \<open>wait_until_finished\<close> returns, while the task is still running:
  nothing has completed and the memory is as it was.
\<close>

theorem wait_until_finished_returns_while_task_runs:
  "run [Enqueue 0 ''e'' a, WorkerDequeue, WaitUntilFinished] (event_loop_new m)
     = Some \<lparr>async_event_queue = [], stop_flag = False,
             event_loop_thread = Running \<lparr>task_bus = 0, task_event_name = ''e'', task_args = a\<rparr>,
             memory = m, completed = []\<rparr>"
  by (simp add: step_def enqueue_event_def worker_dequeue_def wait_until_finished_def
      event_loop_new_def)

subsection \<open>Exceptions\<close>

text \<open>
  Claim C3, as stated, fails for the loop: it has no handler for exceptions. Below, the
  first of two queued tasks throws; the worker is terminated with the second task still
  in the queue, and the step that would take it is not enabled.
\<close>

theorem task_exception_not_caught_counterexample:
  "map_option (\<lambda>s. (event_loop_thread s, async_event_queue s, completed s, world (memory s)))
     (run [Enqueue 0 ''boom'' 1, Enqueue 0 ''ok'' 2, WorkerDequeue, WorkerExecute]
        (event_loop_new
           (\<lparr>buses = \<lambda>p. snd (subscribe (snd (subscribe new_bus ''boom'' (\<lambda>a w. Threw () w)))
                                    ''ok'' (\<lambda>a w. Returned (w + a))),
             world = 0\<rparr> :: (nat, nat, unit) memory)))
     = Some (Terminated \<lparr>task_bus = 0, task_event_name = ''boom'', task_args = 1\<rparr> (),
             [\<lparr>task_bus = 0, task_event_name = ''ok'', task_args = 2\<rparr>], [], 0)
   \<and> run [Enqueue 0 ''boom'' 1, Enqueue 0 ''ok'' 2, WorkerDequeue, WorkerExecute, WorkerDequeue]
        (event_loop_new
           (\<lparr>buses = \<lambda>p. snd (subscribe (snd (subscribe new_bus ''boom'' (\<lambda>a w. Threw () w)))
                                    ''ok'' (\<lambda>a w. Returned (w + a))),
             world = 0\<rparr> :: (nat, nat, unit) memory))
     = None"
  by (simp add: step_def enqueue_event_def worker_dequeue_def worker_execute_def run_task_def
      event_loop_new_def split_beta trigger_impl_bus_unchanged trigger_impl_outcome
      subscribe_registered registered_new_bus invoke_def)

text \<open>
  Claim C3, amended. When the task the worker runs throws, the exception leaves the
  worker thread's function: the process is terminated and no step, of the worker or of
  a client, follows. For a direct trigger (and for \<open>trigger_impl\<close>), the exception of
  the first handler that throws is the outcome of the call, with the effects of the
  handlers before it.
\<close>

theorem uncaught_exception_ends_worker:
  "(event_loop_thread s = Running t \<and> run_task t (memory s) = Threw x m' \<longrightarrow>
      step WorkerExecute s = Some (s\<lparr>memory := m', event_loop_thread := Terminated t x\<rparr>)
      \<and> (\<forall>a. step a (s\<lparr>memory := m', event_loop_thread := Terminated t x\<rparr>) = None))
   \<and> (registered b n = pre @ (i, h) # post \<and> invoke_all pre a w = Returned w1
        \<and> invoke h a w1 = Threw x w2 \<longrightarrow>
      snd (trigger b n a w) = Threw x w2 \<and> snd (trigger_impl b n a w) = Threw x w2)"
proof -
  show ?thesis
    by (auto simp: step_def worker_execute_def trigger_outcome trigger_impl_outcome invoke_all_append)
qed

theorem uncaught_exception_ends_worker_witness:
  "step WorkerExecute
     (\<lparr>async_event_queue = [\<lparr>task_bus = 0, task_event_name = ''ok'', task_args = 2\<rparr>],
       stop_flag = False,
       event_loop_thread = Running \<lparr>task_bus = 0, task_event_name = ''boom'', task_args = 1\<rparr>,
       memory = \<lparr>buses = \<lambda>p. snd (subscribe new_bus ''boom'' (\<lambda>a w. Threw () (w + a))), world = 0\<rparr>,
       completed = []\<rparr> :: (nat, nat, unit) loop_state)
     = Some \<lparr>async_event_queue = [\<lparr>task_bus = 0, task_event_name = ''ok'', task_args = 2\<rparr>],
       stop_flag = False,
       event_loop_thread = Terminated \<lparr>task_bus = 0, task_event_name = ''boom'', task_args = 1\<rparr> (),
       memory = \<lparr>buses = \<lambda>p. snd (subscribe new_bus ''boom'' (\<lambda>a w. Threw () (w + a))), world = 1\<rparr>,
       completed = []\<rparr>
   \<and> step WorkerDequeue
     (\<lparr>async_event_queue = [\<lparr>task_bus = 0, task_event_name = ''ok'', task_args = 2\<rparr>],
       stop_flag = False,
       event_loop_thread = Terminated \<lparr>task_bus = 0, task_event_name = ''boom'', task_args = 1\<rparr> (),
       memory = \<lparr>buses = \<lambda>p. snd (subscribe new_bus ''boom'' (\<lambda>a w. Threw () (w + a))), world = 1\<rparr>,
       completed = []\<rparr> :: (nat, nat, unit) loop_state)
     = None
   \<and> snd (trigger
        (snd (subscribe (snd (subscribe new_bus ''e'' ((\<lambda>a w. Returned (w + a)) :: (nat, nat, unit) handler)))
                ''e'' (\<lambda>a w. Threw () (w * a))))
        ''e'' 3 1) = Threw () 12"
proof -
  let ?bus = "snd (subscribe new_bus ''boom'' ((\<lambda>a w. Threw () (w + a)) :: (nat, nat, unit) handler))"
  let ?t = "\<lparr>task_bus = 0, task_event_name = ''boom'', task_args = 1 :: nat\<rparr>"
  let ?q = "[\<lparr>task_bus = 0, task_event_name = ''ok'', task_args = 2 :: nat\<rparr>]"
  let ?s = "\<lparr>async_event_queue = ?q, stop_flag = False, event_loop_thread = Running ?t,
             memory = \<lparr>buses = \<lambda>p. ?bus, world = 0\<rparr>, completed = []\<rparr>"
  let ?m' = "\<lparr>buses = \<lambda>p. ?bus, world = 1\<rparr>"
  have t: "run_task ?t (memory ?s) = Threw () ?m'"
    by (simp add: run_task_def split_beta trigger_impl_bus_unchanged trigger_impl_outcome
        subscribe_registered registered_new_bus invoke_def fun_upd_idem)
  have loop: "step WorkerExecute ?s = Some (?s\<lparr>memory := ?m', event_loop_thread := Terminated ?t ()\<rparr>)
      \<and> step WorkerDequeue (?s\<lparr>memory := ?m', event_loop_thread := Terminated ?t ()\<rparr>) = None"
    using uncaught_exception_ends_worker [of ?s ?t "()" ?m', THEN conjunct1] t by simp
  let ?h1 = "(\<lambda>a w. Returned (w + a)) :: (nat, nat, unit) handler"
  let ?h2 = "(\<lambda>a w. Threw () (w * a)) :: (nat, nat, unit) handler"
  let ?b = "snd (subscribe (snd (subscribe new_bus ''e'' ?h1)) ''e'' ?h2)"
  have reg: "registered ?b ''e'' = [(0, ?h1)] @ (1, ?h2) # []"
    by (simp add: subscribe_registered registered_new_bus subscribe_next_id) (simp add: new_bus_def)
  have "snd (trigger ?b ''e'' 3 1) = Threw () 12"
    using uncaught_exception_ends_worker
      [of _ _ "()" _ ?b "''e''" "[(0, ?h1)]" 1 ?h2 "[]" 3 1 4 12, THEN conjunct2] reg
    by (simp add: invoke_def)
  with loop show ?thesis by simp
qed

end
